theory Spec2Isabelle
  imports Main "HOL-Library.Word"
begin

section \<open>Data model of \<^verbatim>\<open>ack_buffer.go\<close>\<close>

text \<open>
  Sequence numbers, slot indices and the capacity are Go \<^verbatim>\<open>uint64\<close> values: 64-bit
  words whose arithmetic wraps around.
\<close>

type_synonym uint64 = "64 word"

text \<open>
  \<^verbatim>\<open>protocol.DataMessage\<close>: the buffer reads and writes the fields \<^verbatim>\<open>SeqNum\<close> and
  \<^verbatim>\<open>AckRequested\<close> only; the payload is opaque. The buffer stores pointers to
  messages; every message handed to \<^verbatim>\<open>Add\<close> is taken to be a fresh one (the producer
  gives it up at that point), so a slot is modelled by the value it points to and
  \<^verbatim>\<open>nil\<close> by \<open>None\<close>.
\<close>

record DataMessage =
  SeqNum :: uint64
  AckRequested :: bool
  JsonPayload :: string

text \<open>
  Modelled from the spec: the \<^verbatim>\<open>Event\<close> latch (\<^verbatim>\<open>NewEvent\<close>, \<^verbatim>\<open>Set\<close>, \<^verbatim>\<open>Clear\<close>,
  \<^verbatim>\<open>IsSet\<close>, \<^verbatim>\<open>WaitFor\<close>) is declared outside \<^verbatim>\<open>ack_buffer.go\<close>. The
  specification describes it as a manual-reset boolean: construction yields a
  cleared latch, \<^verbatim>\<open>Set\<close> and \<^verbatim>\<open>Clear\<close> are idempotent, \<^verbatim>\<open>IsSet\<close> reads it, and
  \<^verbatim>\<open>WaitFor d\<close> returns true iff the latch is set when the wait returns. \<open>WaitFor\<close>
  is therefore applied to the latch as it is at the moment the wait returns.
\<close>

type_synonym Event = bool

definition NewEvent :: Event where
  "NewEvent = False"

definition Set_ev :: "Event \<Rightarrow> Event" where
  "Set_ev ev = True"

definition Clear :: "Event \<Rightarrow> Event" where
  "Clear ev = False"

definition IsSet :: "Event \<Rightarrow> bool" where
  "IsSet ev = ev"

definition WaitFor :: "Event \<Rightarrow> bool" where
  "WaitFor ev = ev"

text \<open>
  The two hooks are \<^verbatim>\<open>func()\<close> values that may be \<^verbatim>\<open>nil\<close>. The model keeps
  whether a hook is configured and records each invocation as an event.
\<close>

record AckBufferOptions =
  BufferCapacity :: uint64
  OnBackPressure :: bool
  OnAck :: bool

record AckBuffer =
  isRunning :: bool
  isAvailable :: Event
  buff :: "DataMessage option list"
  nextIndexFree :: uint64
  firstSeqNum :: uint64
  nextSeqNum :: uint64
  ackEvery :: uint64
  nextIndexToDeliver :: uint64
  isReadyToDeliver :: Event
  onBackPressure :: bool
  onAck :: bool

text \<open>
  What a call can end with besides its normal result: the two errors \<^verbatim>\<open>Ack\<close> returns
  (\<^verbatim>\<open>unexpected acked sequence number: seq\<close> and
  \<^verbatim>\<open>acked message (seq) has not yet been delivered (next)\<close>) and the two run-time
  panics of Go that the code can raise.
\<close>

datatype fault =
    UnexpectedSeq uint64
  | NotYetDelivered uint64 uint64
  | IndexOutOfRange
  | DivideByZero

fun is_error :: "fault \<Rightarrow> bool" where
  "is_error (UnexpectedSeq s) = True"
| "is_error (NotYetDelivered s n) = True"
| "is_error IndexOutOfRange = False"
| "is_error DivideByZero = False"

text \<open>What a call does that is visible beside the buffer: hook calls and the mutex.\<close>

datatype event = CallOnBackPressure | CallOnAck | Lock | Unlock

section \<open>Construction\<close>

definition defaultCapacity :: uint64 where
  "defaultCapacity = 5000"

text \<open>
  \<^verbatim>\<open>float64(o.BufferCapacity)\<close>: the conversion rounds to the nearest value with a
  53-bit significand, ties to even. The result is a whole number, given here as a
  natural number. \<open>bit_length n\<close> is the number of binary digits of \<open>n\<close>.
\<close>

fun bit_length :: "nat \<Rightarrow> nat" where
  "bit_length n = (if n = 0 then 0 else Suc (bit_length (n div 2)))"

declare bit_length.simps [simp del]

definition float64_of_uint64 :: "uint64 \<Rightarrow> nat" where
  "float64_of_uint64 x =
     (let n = unat x in
      if n < 2 ^ 53 then n
      else
        let e = bit_length n - 53;
            q = n div 2 ^ e;
            r = n mod 2 ^ e
        in (if 2 ^ e < 2 * r \<or> (2 * r = 2 ^ e \<and> odd q) then q + 1 else q) * 2 ^ e)"

text \<open>
  \<^verbatim>\<open>uint64(float64(o.BufferCapacity) * ackPercentOfCapacity)\<close> with the constant
  0.5: halving a float64 is exact, and the conversion back truncates.
\<close>

definition ackEvery_of :: "uint64 \<Rightarrow> uint64" where
  "ackEvery_of c = of_nat (float64_of_uint64 c div 2)"

definition capacity :: "AckBufferOptions \<Rightarrow> uint64" where
  "capacity opts = (if BufferCapacity opts = 0 then defaultCapacity else BufferCapacity opts)"

definition NewAckBuffer :: "AckBufferOptions \<Rightarrow> AckBuffer" where
  "NewAckBuffer opts =
     \<lparr> isRunning = True,
       isAvailable = Set_ev NewEvent,
       buff = replicate (unat (capacity opts)) None,
       nextIndexFree = 0,
       firstSeqNum = 1,
       nextSeqNum = 1,
       ackEvery = ackEvery_of (capacity opts),
       nextIndexToDeliver = 0,
       isReadyToDeliver = NewEvent,
       onBackPressure = OnBackPressure opts,
       onAck = OnAck opts \<rparr>"

section \<open>Close\<close>

definition Close :: "AckBuffer \<Rightarrow> AckBuffer" where
  "Close b = b\<lparr>isRunning := False\<rparr>"

section \<open>Add\<close>

text \<open>\<^verbatim>\<open>uint64(len(b.buff))\<close> and \<^verbatim>\<open>math.MaxUint64\<close>.\<close>

definition MaxUint64 :: uint64 where
  "MaxUint64 = 18446744073709551615"

definition len64 :: "AckBuffer \<Rightarrow> uint64" where
  "len64 b = of_nat (length (buff b))"

text \<open>
  The part of \<^verbatim>\<open>Add\<close> that runs under the lock once the latch has been found set
  (from \<^verbatim>\<open>e.SeqNum = b.nextSeqNum\<close> to the \<^verbatim>\<open>Unlock\<close>). The remainder by
  \<^verbatim>\<open>b.ackEvery\<close> panics when \<^verbatim>\<open>b.ackEvery\<close> is zero, the store into
  \<^verbatim>\<open>b.buff\<close> panics when the index is not below the length.
\<close>

definition Add_locked :: "AckBuffer \<Rightarrow> DataMessage \<Rightarrow> fault + AckBuffer" where
  "Add_locked b e =
     (let e1 = e\<lparr>SeqNum := nextSeqNum b\<rparr>;
          b1 = b\<lparr>nextSeqNum := nextSeqNum b + 1\<rparr>
      in if ackEvery b1 = 0 then Inl DivideByZero
         else
           let e2 = (if SeqNum e1 mod ackEvery b1 = 0 then e1\<lparr>AckRequested := True\<rparr> else e1)
           in if length (buff b1) \<le> unat (nextIndexFree b1) then Inl IndexOutOfRange
              else
                let b2 = b1\<lparr>buff := (buff b1)[unat (nextIndexFree b1) := Some e2]\<rparr>;
                    b3 = b2\<lparr>nextIndexFree := nextIndexFree b2 + 1\<rparr>;
                    b4 = (if len64 b3 \<le> nextIndexFree b3
                          then b3\<lparr>isAvailable := Clear (isAvailable b3)\<rparr> else b3)
                in Inr (b4\<lparr>isReadyToDeliver := Set_ev (isReadyToDeliver b4)\<rparr>))"

text \<open>
  One pass of the loop of \<^verbatim>\<open>Add\<close> meets its surroundings at three places: the clock
  it reads, what the other goroutines do to the buffer while it waits on the latch, and
  what they do between the return of the wait and the moment the lock is held.
\<close>

record pass =
  now :: int
  while_waiting :: "AckBuffer \<Rightarrow> AckBuffer"
  before_lock :: "AckBuffer \<Rightarrow> AckBuffer"

text \<open>A pass during which no other goroutine touches the buffer.\<close>

definition quiet :: "int \<Rightarrow> pass" where
  "quiet t = \<lparr> now = t, while_waiting = (\<lambda>b. b), before_lock = (\<lambda>b. b) \<rparr>"

text \<open>
  \<open>Returned r b\<close>: the call returned \<open>r\<close> and left the buffer as \<open>b\<close>;
  \<open>Panicked f\<close>: it panicked; \<open>Blocked b\<close>: it is still in its loop after the given
  passes.
\<close>

datatype add_outcome = Returned bool AckBuffer | Panicked fault | Blocked AckBuffer

text \<open>
  The loop \<^verbatim>\<open>for !hasBeenAdded\<close>. \<open>deadline\<close> is \<open>None\<close> for the zero
  \<^verbatim>\<open>time.Time\<close> (\<^verbatim>\<open>deadline.IsZero()\<close>). Every \<^verbatim>\<open>break\<close> leaves the loop with
  \<^verbatim>\<open>hasBeenAdded\<close> false, a successful pass leaves it with \<^verbatim>\<open>hasBeenAdded\<close> true,
  \<^verbatim>\<open>continue\<close> starts the next pass.
\<close>

fun Add_loop :: "AckBuffer \<Rightarrow> DataMessage \<Rightarrow> int option \<Rightarrow> pass list \<Rightarrow> event list \<times> add_outcome" where
  "Add_loop b e deadline [] = ([], Blocked b)"
| "Add_loop b e (Some d) (p # ps) =
     (if d < now p then ([], Returned False b)
      else
        let hook = (if onBackPressure b \<and> \<not> IsSet (isAvailable b) then [CallOnBackPressure] else []);
            b1 = while_waiting p b
        in if \<not> WaitFor (isAvailable b1) then (hook, Returned False b1)
           else
             let b2 = before_lock p b1
             in if \<not> IsSet (isAvailable b2) then (hook @ [Lock, Unlock], Returned False b2)
                else (case Add_locked b2 e of
                        Inl f \<Rightarrow> (hook @ [Lock], Panicked f)
                      | Inr b3 \<Rightarrow> (hook @ [Lock, Unlock], Returned True b3)))"
| "Add_loop b e None (p # ps) =
     (let b1 = while_waiting p b;
          b2 = before_lock p b1
      in if \<not> IsSet (isAvailable b2) then
           (if isRunning b2
            then (let (tr, r) = Add_loop b2 e None ps in (Lock # Unlock # tr, r))
            else ([Lock, Unlock], Returned False b2))
         else (case Add_locked b2 e of
                 Inl f \<Rightarrow> ([Lock], Panicked f)
               | Inr b3 \<Rightarrow> ([Lock, Unlock], Returned True b3)))"

text \<open>
  \<^verbatim>\<open>Add(e, timeout)\<close>; \<open>start\<close> is the reading of \<^verbatim>\<open>time.Now()\<close> from which the
  deadline is computed when \<^verbatim>\<open>timeout != 0\<close>.
\<close>

definition Add :: "AckBuffer \<Rightarrow> DataMessage \<Rightarrow> int \<Rightarrow> int \<Rightarrow> pass list \<Rightarrow> event list \<times> add_outcome" where
  "Add b e timeout start passes =
     Add_loop b e (if timeout \<noteq> 0 then Some (start + timeout) else None) passes"

section \<open>Ack\<close>

text \<open>
  The two \<^verbatim>\<open>for\<close> loops of \<^verbatim>\<open>Ack\<close>. The counter \<^verbatim>\<open>i\<close> stays below
  \<^verbatim>\<open>len(b.buff)\<close>, so it is a natural number here; \<open>k\<close> is \<^verbatim>\<open>indexAcked\<close>, which is
  below \<^verbatim>\<open>nextIndexToDeliver\<close> where the loops run, so that \<^verbatim>\<open>indexAcked + 1\<close> does not
  wrap around and \<^verbatim>\<open>i - indexAcked - 1\<close> is the difference of natural numbers.
\<close>

definition shift_slots :: "nat \<Rightarrow> 'a list \<Rightarrow> 'a list" where
  "shift_slots k xs = fold (\<lambda>i ys. ys[i - k - 1 := ys ! i]) [k + 1 ..< length xs] xs"

definition clear_slots :: "nat \<Rightarrow> 'a option list \<Rightarrow> 'a option list" where
  "clear_slots n xs = fold (\<lambda>i ys. ys[i := None]) [n ..< length xs] xs"

text \<open>The body of \<^verbatim>\<open>Ack\<close> after \<^verbatim>\<open>b.Lock()\<close>.\<close>

definition Ack_locked :: "AckBuffer \<Rightarrow> uint64 \<Rightarrow> fault + AckBuffer" where
  "Ack_locked b seq =
     (if seq < firstSeqNum b \<and> len64 b - (MaxUint64 - firstSeqNum b) \<le> seq
      then Inl (UnexpectedSeq seq)
      else if nextSeqNum b \<le> seq \<and> MaxUint64 - seq \<le> nextSeqNum b
      then Inl (UnexpectedSeq seq)
      else
        let indexAcked = seq - firstSeqNum b
        in if nextIndexToDeliver b \<le> indexAcked then
             (if length (buff b) \<le> unat (nextIndexToDeliver b) then Inl IndexOutOfRange
              else Inl (NotYetDelivered seq
                     (case buff b ! unat (nextIndexToDeliver b) of
                        None \<Rightarrow> 0 | Some m \<Rightarrow> SeqNum m)))
           else
             let b1 = b\<lparr>firstSeqNum := seq + 1\<rparr>;
                 b2 = b1\<lparr>buff := shift_slots (unat indexAcked) (buff b1)\<rparr>;
                 b3 = b2\<lparr>nextIndexFree := nextIndexFree b2 - indexAcked - 1\<rparr>;
                 b4 = b3\<lparr>buff := clear_slots (unat (nextIndexFree b3)) (buff b3)\<rparr>;
                 b5 = b4\<lparr>isAvailable := Set_ev (isAvailable b4)\<rparr>;
                 b6 = b5\<lparr>nextIndexToDeliver := nextIndexToDeliver b5 - (indexAcked + 1)\<rparr>
             in Inr (if nextIndexFree b6 \<le> nextIndexToDeliver b6
                     then b6\<lparr>isReadyToDeliver := Clear (isReadyToDeliver b6)\<rparr> else b6))"

text \<open>
  \<^verbatim>\<open>Ack(seq)\<close>: the hook, then the lock, then the body; the deferred \<^verbatim>\<open>Unlock\<close>
  runs on every way out, a panic included.
\<close>

definition Ack :: "AckBuffer \<Rightarrow> uint64 \<Rightarrow> event list \<times> (fault + AckBuffer)" where
  "Ack b seq =
     ((if onAck b then [CallOnAck] else []) @ [Lock, Unlock], Ack_locked b seq)"

section \<open>GetUnAcked, GetNextToDeliver, ResetDelivery\<close>

text \<open>Slicing \<^verbatim>\<open>b.buff[:b.nextIndexFree]\<close> panics beyond the length.\<close>

definition GetUnAcked :: "AckBuffer \<Rightarrow> fault + DataMessage option list" where
  "GetUnAcked b =
     (if length (buff b) < unat (nextIndexFree b) then Inl IndexOutOfRange
      else Inr (take (unat (nextIndexFree b)) (buff b)))"

text \<open>
  \<^verbatim>\<open>GetNextToDeliver(timeout)\<close> while no other goroutine changes the buffer: the
  result is the message returned (\<open>None\<close> for \<^verbatim>\<open>nil\<close>) and the buffer afterwards.
\<close>

definition GetNextToDeliver :: "AckBuffer \<Rightarrow> fault + (DataMessage option \<times> AckBuffer)" where
  "GetNextToDeliver b =
     (if \<not> WaitFor (isReadyToDeliver b) then Inr (None, b)
      else if \<not> IsSet (isReadyToDeliver b) then Inr (None, b)
      else if length (buff b) \<le> unat (nextIndexToDeliver b) then Inl IndexOutOfRange
      else
        let n = buff b ! unat (nextIndexToDeliver b);
            b1 = b\<lparr>nextIndexToDeliver := nextIndexToDeliver b + 1\<rparr>
        in Inr (n, if nextIndexFree b1 \<le> nextIndexToDeliver b1
                   then b1\<lparr>isReadyToDeliver := Clear (isReadyToDeliver b1)\<rparr> else b1))"

definition ResetDelivery :: "AckBuffer \<Rightarrow> AckBuffer" where
  "ResetDelivery b =
     (let b1 = b\<lparr>nextIndexToDeliver := 0\<rparr>
      in if nextIndexFree b1 \<le> nextIndexToDeliver b1
         then b1\<lparr>isReadyToDeliver := Clear (isReadyToDeliver b1)\<rparr>
         else b1\<lparr>isReadyToDeliver := Set_ev (isReadyToDeliver b1)\<rparr>)"

section \<open>Sequences of calls\<close>

text \<open>
  A sequence of calls on one buffer, each call running to its end before the next one
  starts. A call of \<^verbatim>\<open>Add\<close> comes with its timeout, the clock reading at its start
  and the clock readings of its passes. An error returned by \<^verbatim>\<open>Ack\<close> goes to the
  caller and the sequence goes on; a panic ends the program; an \<^verbatim>\<open>Add\<close> that is
  still in its loop after its passes has not returned.
\<close>

datatype call =
    DoAdd DataMessage int int "int list"
  | DoAck uint64
  | DoGetNextToDeliver
  | DoResetDelivery
  | DoClose

datatype run_outcome = Quiescent AckBuffer | Crashed fault | Hung

fun run :: "call list \<Rightarrow> AckBuffer \<Rightarrow> run_outcome" where
  "run [] b = Quiescent b"
| "run (DoAdd e timeout start clock # cs) b =
     (case snd (Add b e timeout start (map quiet clock)) of
        Returned ok b' \<Rightarrow> run cs b'
      | Panicked f \<Rightarrow> Crashed f
      | Blocked b' \<Rightarrow> Hung)"
| "run (DoAck seq # cs) b =
     (case snd (Ack b seq) of
        Inr b' \<Rightarrow> run cs b'
      | Inl f \<Rightarrow> if is_error f then run cs b else Crashed f)"
| "run (DoGetNextToDeliver # cs) b =
     (case GetNextToDeliver b of
        Inr (m, b') \<Rightarrow> run cs b'
      | Inl f \<Rightarrow> Crashed f)"
| "run (DoResetDelivery # cs) b = run cs (ResetDelivery b)"
| "run (DoClose # cs) b = run cs (Close b)"

section \<open>The invariants of the buffer\<close>

text \<open>
  The invariants the specification lists for the buffer state, over the fields of the
  code: \<^verbatim>\<open>next_seq = first_seq + next_free\<close>;
  \<^verbatim>\<open>deliver_cursor \<le> next_free \<le> C\<close>; slot \<open>i\<close> below \<^verbatim>\<open>next_free\<close> holds the message
  numbered \<^verbatim>\<open>first_seq + i\<close> and the slots from \<^verbatim>\<open>next_free\<close> on are empty;
  \<^verbatim>\<open>available\<close> is set iff \<^verbatim>\<open>next_free < C\<close>; \<^verbatim>\<open>ready\<close> is set iff
  \<^verbatim>\<open>deliver_cursor < next_free\<close>. \<open>C\<close> is the length of \<^verbatim>\<open>buff\<close>, itself a
  \<^verbatim>\<open>uint64\<close> value. Sums of sequence numbers are sums of \<^verbatim>\<open>uint64\<close> values.
\<close>

definition buffer_inv :: "AckBuffer \<Rightarrow> bool" where
  "buffer_inv b \<longleftrightarrow>
     length (buff b) < 2 ^ 64 \<and>
     nextSeqNum b = firstSeqNum b + nextIndexFree b \<and>
     nextIndexToDeliver b \<le> nextIndexFree b \<and>
     unat (nextIndexFree b) \<le> length (buff b) \<and>
     (\<forall>i < unat (nextIndexFree b).
        \<exists>m. buff b ! i = Some m \<and> SeqNum m = firstSeqNum b + of_nat i) \<and>
     (\<forall>i. unat (nextIndexFree b) \<le> i \<and> i < length (buff b) \<longrightarrow> buff b ! i = None) \<and>
     (IsSet (isAvailable b) \<longleftrightarrow> unat (nextIndexFree b) < length (buff b)) \<and>
     (IsSet (isReadyToDeliver b) \<longleftrightarrow> nextIndexToDeliver b < nextIndexFree b)"

section \<open>A buffer of capacity 4\<close>

definition demo_opts :: AckBufferOptions where
  "demo_opts = \<lparr> BufferCapacity = 4, OnBackPressure = True, OnAck = True \<rparr>"

definition demo_msg :: DataMessage where
  "demo_msg = \<lparr> SeqNum = 0, AckRequested = False, JsonPayload = ''payload'' \<rparr>"

text \<open>Four messages admitted with a timeout of one second, then all four delivered.\<close>

definition fill4 :: "call list" where
  "fill4 = [DoAdd demo_msg 1000000000 0 [0], DoAdd demo_msg 1000000000 0 [0],
            DoAdd demo_msg 1000000000 0 [0], DoAdd demo_msg 1000000000 0 [0]]"

definition deliver4 :: "call list" where
  "deliver4 = [DoGetNextToDeliver, DoGetNextToDeliver, DoGetNextToDeliver, DoGetNextToDeliver]"

text \<open>The buffer after \<open>fill4\<close>, and after \<open>fill4\<close> and \<open>deliver4\<close>.\<close>

definition stored :: "uint64 \<Rightarrow> bool \<Rightarrow> DataMessage option" where
  "stored n a = Some \<lparr> SeqNum = n, AckRequested = a, JsonPayload = ''payload'' \<rparr>"

definition full4 :: AckBuffer where
  "full4 =
     \<lparr> isRunning = True, isAvailable = False,
       buff = [stored 1 False, stored 2 True, stored 3 False, stored 4 True],
       nextIndexFree = 4, firstSeqNum = 1, nextSeqNum = 5, ackEvery = 2,
       nextIndexToDeliver = 0, isReadyToDeliver = True,
       onBackPressure = True, onAck = True \<rparr>"

definition sent4 :: AckBuffer where
  "sent4 = full4 \<lparr> nextIndexToDeliver := 4, isReadyToDeliver := False \<rparr>"

text \<open>The buffer after the first three calls of \<open>fill4\<close>.\<close>

definition admitted3 :: AckBuffer where
  "admitted3 =
     \<lparr> isRunning = True, isAvailable = True,
       buff = [stored 1 False, stored 2 True, stored 3 False, None],
       nextIndexFree = 3, firstSeqNum = 1, nextSeqNum = 4, ackEvery = 2,
       nextIndexToDeliver = 0, isReadyToDeliver = True,
       onBackPressure = True, onAck = True \<rparr>"

text \<open>The buffer after the acknowledgement of sequence number 2 in \<open>sent4\<close>.\<close>

definition acked2 :: AckBuffer where
  "acked2 =
     \<lparr> isRunning = True, isAvailable = True,
       buff = [stored 3 False, stored 4 True, None, None],
       nextIndexFree = 2, firstSeqNum = 3, nextSeqNum = 5, ackEvery = 2,
       nextIndexToDeliver = 2, isReadyToDeliver = False,
       onBackPressure = True, onAck = True \<rparr>"

text \<open>Options asking for a buffer of capacity 1.\<close>

definition opts1 :: AckBufferOptions where
  "opts1 = \<lparr> BufferCapacity = 1, OnBackPressure = False, OnAck = False \<rparr>"

section \<open>The loops of Ack in closed form\<close>

lemma shift_fold:
  "n \<le> length xs \<Longrightarrow>
     length (fold (\<lambda>i ys. ys[i - k - 1 := ys ! i]) [k + 1 ..< n] xs) = length xs \<and>
     (\<forall>i < length xs. fold (\<lambda>i ys. ys[i - k - 1 := ys ! i]) [k + 1 ..< n] xs ! i =
        (if i + k + 1 < n then xs ! (i + k + 1) else xs ! i))"
proof (induction n)
  case 0
  then show ?case by simp
next
  case (Suc n)
  show ?case
  proof (cases "k + 1 \<le> n")
    case False
    then have "[k + 1 ..< Suc n] = []" by simp
    with False show ?thesis by simp
  next
    case True
    define ys where "ys = fold (\<lambda>i ys. ys[i - k - 1 := ys ! i]) [k + 1 ..< n] xs"
    from Suc have len: "length ys = length xs"
      and nth: "\<And>i. i < length xs \<Longrightarrow> ys ! i = (if i + k + 1 < n then xs ! (i + k + 1) else xs ! i)"
      unfolding ys_def by simp_all
    from True have upt: "[k + 1 ..< Suc n] = [k + 1 ..< n] @ [n]" by simp
    have n_lt: "n < length xs" using Suc.prems by simp
    have yn: "ys ! n = xs ! n" using nth [OF n_lt] by simp
    have res: "fold (\<lambda>i ys. ys[i - k - 1 := ys ! i]) [k + 1 ..< Suc n] xs = ys[n - k - 1 := xs ! n]"
      unfolding ys_def [symmetric] upt fold_append comp_apply
      by (simp add: yn ys_def [symmetric])
    have "length (ys[n - k - 1 := xs ! n]) = length xs"
      by (simp add: len)
    moreover have "ys[n - k - 1 := xs ! n] ! i =
        (if i + k + 1 < Suc n then xs ! (i + k + 1) else xs ! i)" if i: "i < length xs" for i
    proof (cases "i = n - k - 1")
      case eq: True
      with True have "i + k + 1 = n" by simp
      then show ?thesis using i eq by (simp add: len)
    next
      case False
      with True have "i + k + 1 \<noteq> n" by arith
      then have "(i + k + 1 < Suc n) = (i + k + 1 < n)" by arith
      then show ?thesis using i False nth [OF i] by (simp add: len)
    qed
    ultimately show ?thesis unfolding res by blast
  qed
qed

lemma length_shift_slots: "length (shift_slots k xs) = length xs"
  using shift_fold [of "length xs" xs k] by (simp add: shift_slots_def)

lemma nth_shift_slots:
  "i < length xs \<Longrightarrow>
     shift_slots k xs ! i = (if i + k + 1 < length xs then xs ! (i + k + 1) else xs ! i)"
  using shift_fold [of "length xs" xs k] by (simp add: shift_slots_def)

lemma clear_fold:
  "m \<le> length xs \<Longrightarrow>
     length (fold (\<lambda>i ys. ys[i := None]) [n ..< m] xs) = length xs \<and>
     (\<forall>i < length xs. fold (\<lambda>i ys. ys[i := None]) [n ..< m] xs ! i =
        (if n \<le> i \<and> i < m then None else xs ! i))"
proof (induction m)
  case 0
  then show ?case by simp
next
  case (Suc m)
  show ?case
  proof (cases "n \<le> m")
    case False
    then show ?thesis by auto
  next
    case True
    then have upt: "[n ..< Suc m] = [n ..< m] @ [m]" by simp
    from Suc have len: "length (fold (\<lambda>i ys. ys[i := None]) [n ..< m] xs) = length xs"
      and nth: "\<And>i. i < length xs \<Longrightarrow> fold (\<lambda>i ys. ys[i := None]) [n ..< m] xs ! i =
        (if n \<le> i \<and> i < m then None else xs ! i)"
      by simp_all
    show ?thesis
      using True by (auto simp: upt len nth nth_list_update less_Suc_eq)
  qed
qed

lemma length_clear_slots: "length (clear_slots n xs) = length xs"
  using clear_fold [of "length xs" xs n] by (simp add: clear_slots_def)

lemma nth_clear_slots:
  "i < length xs \<Longrightarrow> clear_slots n xs ! i = (if n \<le> i then None else xs ! i)"
  using clear_fold [of "length xs" xs n] by (simp add: clear_slots_def)

section \<open>Words as natural numbers\<close>

lemmas ev_defs = NewEvent_def Set_ev_def Clear_def IsSet_def WaitFor_def


lemma unat_lt_64: "unat (w :: uint64) < 2 ^ 64"
proof -
  have "unat w < 2 ^ LENGTH(64)" by (rule unsigned_less)
  then show ?thesis by simp
qed

lemma unat_plus_one: "unat (w :: uint64) < n \<Longrightarrow> n < 2 ^ 64 \<Longrightarrow> unat (w + 1) = unat w + 1"
  by (simp add: unat_word_ariths)

lemma unat_len64: "length (buff b) < 2 ^ 64 \<Longrightarrow> unat (len64 b) = length (buff b)"
  by (simp add: len64_def unat_of_nat)

lemma capacity_nonzero: "capacity opts \<noteq> 0"
  by (simp add: capacity_def defaultCapacity_def)

lemma buffer_inv_NewAckBuffer: "buffer_inv (NewAckBuffer opts)"
proof -
  have "unat (capacity opts) \<noteq> 0"
    using capacity_nonzero [of opts] by (simp add: unat_eq_zero)
  then show ?thesis
    using unat_lt_64 [of "capacity opts"]
    by (simp add: buffer_inv_def NewAckBuffer_def ev_defs)
qed

lemma Add_locked_inv:
  assumes inv: "buffer_inv b" and add: "Add_locked b e = Inr b'"
  shows "buffer_inv b'"
proof -
  let ?nf = "unat (nextIndexFree b)"
  let ?e2 = "if nextSeqNum b mod ackEvery b = 0
             then e\<lparr>SeqNum := nextSeqNum b, AckRequested := True\<rparr> else e\<lparr>SeqNum := nextSeqNum b\<rparr>"
  from add have room: "?nf < length (buff b)"
    by (simp add: Add_locked_def Let_def split: if_splits)
  from inv have len: "length (buff b) < 2 ^ 64" by (simp add: buffer_inv_def)
  have suc: "unat (nextIndexFree b + 1) = ?nf + 1"
    using room len by (rule unat_plus_one)
  have full: "(len64 b \<le> nextIndexFree b + 1) = (length (buff b) \<le> ?nf + 1)"
    by (simp add: word_le_nat_alt unat_len64 [OF len] suc)
  have seq_e2: "SeqNum ?e2 = nextSeqNum b" by simp
  from add have b': "b' = b\<lparr>nextSeqNum := nextSeqNum b + 1,
         buff := (buff b)[?nf := Some ?e2],
         nextIndexFree := nextIndexFree b + 1,
         isAvailable := (if length (buff b) \<le> ?nf + 1 then False else isAvailable b),
         isReadyToDeliver := True\<rparr>"
    using full
    by (auto simp: Add_locked_def Let_def len64_def ev_defs split: if_splits)
  from inv have ns: "nextSeqNum b = firstSeqNum b + nextIndexFree b"
    and dc: "unat (nextIndexToDeliver b) \<le> ?nf"
    and slots: "\<And>i. i < ?nf \<Longrightarrow> \<exists>m. buff b ! i = Some m \<and> SeqNum m = firstSeqNum b + of_nat i"
    and empty: "\<And>i. ?nf \<le> i \<Longrightarrow> i < length (buff b) \<Longrightarrow> buff b ! i = None"
    and avail: "isAvailable b = (?nf < length (buff b))"
    by (simp_all add: buffer_inv_def word_le_nat_alt ev_defs)
  have "\<exists>m. buff b' ! i = Some m \<and> SeqNum m = firstSeqNum b' + of_nat i" if "i < ?nf + 1" for i
  proof (cases "i = ?nf")
    case True
    then show ?thesis using room seq_e2 by (simp add: b' ns)
  next
    case False
    with that have "i < ?nf" by simp
    from slots [OF this] False show ?thesis by (simp add: b')
  qed
  moreover have "buff b' ! i = None" if "?nf + 1 \<le> i" "i < length (buff b)" for i
    using that empty [of i] by (simp add: b')
  ultimately show ?thesis
    using len dc room avail
    by (simp add: buffer_inv_def b' suc ns word_le_nat_alt word_less_nat_alt ev_defs)
qed

lemma GetNextToDeliver_inv:
  assumes inv: "buffer_inv b" and get: "GetNextToDeliver b = Inr (m, b')"
  shows "buffer_inv b'"
proof (cases "isReadyToDeliver b")
  case False
  with get inv show ?thesis by (simp add: GetNextToDeliver_def ev_defs)
next
  case True
  with inv have lt: "unat (nextIndexToDeliver b) < unat (nextIndexFree b)"
    and nf: "unat (nextIndexFree b) \<le> length (buff b)"
    by (simp_all add: buffer_inv_def ev_defs word_less_nat_alt)
  have suc: "unat (nextIndexToDeliver b + 1) = unat (nextIndexToDeliver b) + 1"
    using lt unat_lt_64 [of "nextIndexFree b"] by (rule unat_plus_one)
  from get True lt nf have b': "b' = b\<lparr>nextIndexToDeliver := nextIndexToDeliver b + 1,
      isReadyToDeliver := (if nextIndexFree b \<le> nextIndexToDeliver b + 1 then False else True)\<rparr>"
    by (auto simp: GetNextToDeliver_def Let_def ev_defs split: if_splits)
  from inv lt show ?thesis
    by (auto simp: b' buffer_inv_def suc word_le_nat_alt word_less_nat_alt ev_defs)
qed

lemma ResetDelivery_inv: "buffer_inv b \<Longrightarrow> buffer_inv (ResetDelivery b)"
  by (auto simp: ResetDelivery_def Let_def buffer_inv_def ev_defs word_le_nat_alt word_less_nat_alt)

lemma Close_inv: "buffer_inv b \<Longrightarrow> buffer_inv (Close b)"
  by (simp add: Close_def buffer_inv_def)

lemma compact_slots:
  assumes "k < n" "n \<le> length xs"
  shows "clear_slots (n - Suc k) (shift_slots k xs) =
           drop (Suc k) (take n xs) @ replicate (length xs - (n - Suc k)) None"
proof (rule nth_equalityI)
  show "length (clear_slots (n - Suc k) (shift_slots k xs)) =
          length (drop (Suc k) (take n xs) @ replicate (length xs - (n - Suc k)) None)"
    using assms by (simp add: length_clear_slots length_shift_slots)
next
  fix i assume "i < length (clear_slots (n - Suc k) (shift_slots k xs))"
  then have i: "i < length xs" by (simp add: length_clear_slots length_shift_slots)
  show "clear_slots (n - Suc k) (shift_slots k xs) ! i =
          (drop (Suc k) (take n xs) @ replicate (length xs - (n - Suc k)) None) ! i"
  proof (cases "i < n - Suc k")
    case True
    with assms have "i + k + 1 < length xs" "Suc k + i < n" by simp_all
    with True i assms show ?thesis
      by (simp add: nth_clear_slots nth_shift_slots length_shift_slots nth_append add.commute)
  next
    case False
    with i assms show ?thesis
      by (simp add: nth_clear_slots length_shift_slots nth_append)
  qed
qed

lemma Ack_locked_effect:
  assumes inv: "buffer_inv b" and ok: "Ack_locked b seq = Inr b'"
  shows "seq - firstSeqNum b < nextIndexToDeliver b"
    and "b' = b\<lparr>firstSeqNum := seq + 1,
           buff := drop (Suc (unat (seq - firstSeqNum b))) (take (unat (nextIndexFree b)) (buff b)) @
                   replicate (length (buff b) - (unat (nextIndexFree b) - Suc (unat (seq - firstSeqNum b)))) None,
           nextIndexFree := nextIndexFree b - (seq - firstSeqNum b) - 1,
           isAvailable := True,
           nextIndexToDeliver := nextIndexToDeliver b - (seq - firstSeqNum b + 1),
           isReadyToDeliver :=
             (if nextIndexFree b - (seq - firstSeqNum b) - 1 \<le> nextIndexToDeliver b - (seq - firstSeqNum b + 1)
              then False else isReadyToDeliver b)\<rparr>"
proof -
  let ?idx = "seq - firstSeqNum b"
  from ok show lt: "?idx < nextIndexToDeliver b"
    by (simp add: Ack_locked_def Let_def split: if_splits)
  from inv have dc: "nextIndexToDeliver b \<le> nextIndexFree b"
    and nf: "unat (nextIndexFree b) \<le> length (buff b)"
    by (simp_all add: buffer_inv_def)
  from lt dc have k: "unat ?idx < unat (nextIndexFree b)"
    by (simp add: word_le_nat_alt word_less_nat_alt)
  then have le: "?idx \<le> nextIndexFree b" by (simp add: word_le_nat_alt)
  have "1 \<le> nextIndexFree b - ?idx"
    using k by (simp add: word_le_nat_alt unat_sub [OF le])
  then have nf': "unat (nextIndexFree b - ?idx - 1) = unat (nextIndexFree b) - Suc (unat ?idx)"
    by (simp add: unat_sub le)
  from ok lt show "b' = b\<lparr>firstSeqNum := seq + 1,
           buff := drop (Suc (unat ?idx)) (take (unat (nextIndexFree b)) (buff b)) @
                   replicate (length (buff b) - (unat (nextIndexFree b) - Suc (unat ?idx))) None,
           nextIndexFree := nextIndexFree b - ?idx - 1,
           isAvailable := True,
           nextIndexToDeliver := nextIndexToDeliver b - (?idx + 1),
           isReadyToDeliver :=
             (if nextIndexFree b - ?idx - 1 \<le> nextIndexToDeliver b - (?idx + 1)
              then False else isReadyToDeliver b)\<rparr>"
    by (auto simp: Ack_locked_def Let_def ev_defs nf' length_shift_slots compact_slots [OF k nf]
          split: if_splits)
qed

lemma Ack_locked_inv:
  assumes inv: "buffer_inv b" and ok: "Ack_locked b seq = Inr b'"
  shows "buffer_inv b'"
proof -
  let ?idx = "seq - firstSeqNum b"
  let ?k = "unat ?idx"
  let ?nf = "unat (nextIndexFree b)"
  let ?dc = "unat (nextIndexToDeliver b)"
  note eff = Ack_locked_effect [OF inv ok]
  from inv have len: "length (buff b) < 2 ^ 64"
    and ns: "nextSeqNum b = firstSeqNum b + nextIndexFree b"
    and dc: "?dc \<le> ?nf"
    and nf: "?nf \<le> length (buff b)"
    and slots: "\<And>i. i < ?nf \<Longrightarrow> \<exists>m. buff b ! i = Some m \<and> SeqNum m = firstSeqNum b + of_nat i"
    and ready: "isReadyToDeliver b = (?dc < ?nf)"
    by (simp_all add: buffer_inv_def word_le_nat_alt word_less_nat_alt ev_defs)
  from eff(1) have k: "?k < ?dc" by (simp add: word_less_nat_alt)
  with dc have k_nf: "?k < ?nf" by simp
  then have le: "?idx \<le> nextIndexFree b" by (simp add: word_le_nat_alt)
  have "1 \<le> nextIndexFree b - ?idx"
    using k_nf by (simp add: word_le_nat_alt unat_sub [OF le])
  then have nf': "unat (nextIndexFree b - ?idx - 1) = ?nf - Suc ?k"
    by (simp add: unat_sub le)
  have suc: "unat (?idx + 1) = ?k + 1"
    using k unat_lt_64 [of "nextIndexToDeliver b"] by (rule unat_plus_one)
  then have "?idx + 1 \<le> nextIndexToDeliver b"
    using k by (simp add: word_le_nat_alt)
  then have dc': "unat (nextIndexToDeliver b - (?idx + 1)) = ?dc - Suc ?k"
    by (simp add: unat_sub suc)
  have idx: "of_nat ?k = ?idx" by simp
  have c1: "nextSeqNum b' = firstSeqNum b' + nextIndexFree b'"
    by (simp add: eff(2) ns)
  have c5: "\<exists>m. buff b' ! i = Some m \<and> SeqNum m = firstSeqNum b' + of_nat i"
    if i: "i < ?nf - Suc ?k" for i
  proof -
    from i have "Suc ?k + i < ?nf" by simp
    from slots [OF this] obtain m where m: "buff b ! (Suc ?k + i) = Some m"
      and sm: "SeqNum m = firstSeqNum b + of_nat (Suc ?k + i)" by blast
    have "firstSeqNum b + of_nat (Suc ?k + i) = seq + 1 + of_nat i"
      by (simp only: of_nat_add of_nat_Suc idx) simp
    with m sm i nf show ?thesis by (simp add: eff(2) nth_append)
  qed
  have c6: "buff b' ! i = None" if "?nf - Suc ?k \<le> i" "i < length (buff b)" for i
    using that nf by (simp add: eff(2) nth_append)
  have c0: "length (buff b') = length (buff b)"
    using nf by (simp add: eff(2))
  show ?thesis
    unfolding buffer_inv_def
  proof (intro conjI)
    show "length (buff b') < 2 ^ 64" using len c0 by simp
    show "nextSeqNum b' = firstSeqNum b' + nextIndexFree b'" by (rule c1)
    show "nextIndexToDeliver b' \<le> nextIndexFree b'"
      using dc by (simp add: eff(2) word_le_nat_alt nf' dc')
    show "unat (nextIndexFree b') \<le> length (buff b')"
      using nf by (simp add: c0) (simp add: eff(2) nf')
    show "\<forall>i<unat (nextIndexFree b'). \<exists>m. buff b' ! i = Some m \<and> SeqNum m = firstSeqNum b' + of_nat i"
      using c5 by (simp add: eff(2) nf')
    show "\<forall>i. unat (nextIndexFree b') \<le> i \<and> i < length (buff b') \<longrightarrow> buff b' ! i = None"
      using c6 by (simp add: c0) (simp add: eff(2) nf')
    show "IsSet (isAvailable b') = (unat (nextIndexFree b') < length (buff b'))"
      using nf k_nf by (simp add: c0) (simp add: eff(2) nf' ev_defs)
    show "IsSet (isReadyToDeliver b') = (nextIndexToDeliver b' < nextIndexFree b')"
      using ready dc k by (auto simp: eff(2) nf' dc' ev_defs word_le_nat_alt word_less_nat_alt)
  qed
qed

lemma Add_loop_quiet_cases:
  "snd (Add_loop b e deadline (map quiet clock)) = Returned ok b' \<Longrightarrow>
     b' = b \<or> Add_locked b e = Inr b'"
proof (induction clock)
  case Nil
  then show ?case by simp
next
  case (Cons t ts)
  show ?case
  proof (cases deadline)
    case None
    with Cons show ?thesis
      by (auto simp: quiet_def Let_def split: if_splits sum.splits prod.splits)
  next
    case (Some d)
    with Cons.prems show ?thesis
      by (auto simp: quiet_def Let_def split: if_splits sum.splits)
  qed
qed

lemma run_inv: "buffer_inv b \<Longrightarrow> run calls b = Quiescent b' \<Longrightarrow> buffer_inv b'"
proof (induction calls arbitrary: b)
  case Nil
  then show ?case by simp
next
  case (Cons c cs)
  show ?case
  proof (cases c)
    case (DoAdd e timeout start clock)
    with Cons.prems obtain ok b1 where
      add: "snd (Add b e timeout start (map quiet clock)) = Returned ok b1"
      and rest: "run cs b1 = Quiescent b'"
      by (auto split: add_outcome.splits)
    from add have "b1 = b \<or> Add_locked b e = Inr b1"
      unfolding Add_def by (rule Add_loop_quiet_cases)
    with Cons.prems(1) have "buffer_inv b1" by (auto intro: Add_locked_inv)
    then show ?thesis using rest by (rule Cons.IH)
  next
    case (DoAck seq)
    show ?thesis
    proof (cases "Ack_locked b seq")
      case (Inl f)
      with DoAck Cons.prems have "run cs b = Quiescent b'"
        by (simp add: Ack_def split: if_splits)
      with Cons.prems(1) show ?thesis by (rule Cons.IH)
    next
      case (Inr b1)
      with DoAck Cons.prems have "run cs b1 = Quiescent b'" by (simp add: Ack_def)
      moreover have "buffer_inv b1" using Cons.prems(1) Inr by (rule Ack_locked_inv)
      ultimately show ?thesis by (rule Cons.IH [rotated])
    qed
  next
    case DoGetNextToDeliver
    with Cons.prems obtain m b1 where get: "GetNextToDeliver b = Inr (m, b1)"
      and rest: "run cs b1 = Quiescent b'"
      by (auto split: sum.splits)
    from Cons.prems(1) get have "buffer_inv b1" by (rule GetNextToDeliver_inv)
    then show ?thesis using rest by (rule Cons.IH)
  next
    case DoResetDelivery
    with Cons.prems have "run cs (ResetDelivery b) = Quiescent b'" by simp
    with ResetDelivery_inv [OF Cons.prems(1)] show ?thesis by (rule Cons.IH)
  next
    case DoClose
    with Cons.prems have "run cs (Close b) = Quiescent b'" by simp
    with Close_inv [OF Cons.prems(1)] show ?thesis by (rule Cons.IH)
  qed
qed

text \<open>
  The same for one \<^verbatim>\<open>Add\<close> whose waits are interleaved with anything the other
  goroutines do, as long as that keeps the invariants.
\<close>

lemma Add_loop_inv:
  assumes "buffer_inv b"
    and "\<forall>p \<in> set passes. \<forall>x. buffer_inv x \<longrightarrow>
           buffer_inv (while_waiting p x) \<and> buffer_inv (before_lock p x)"
    and "snd (Add_loop b e deadline passes) = Returned ok b'"
  shows "buffer_inv b'"
  using assms
proof (induction passes arbitrary: b)
  case Nil
  then show ?case by simp
next
  case (Cons p ps)
  let ?b1 = "while_waiting p b"
  let ?b2 = "before_lock p ?b1"
  from Cons.prems(1,2) have b1: "buffer_inv ?b1" and b2: "buffer_inv ?b2" by simp_all
  from Cons.prems(2) have rest: "\<forall>p \<in> set ps. \<forall>x. buffer_inv x \<longrightarrow>
           buffer_inv (while_waiting p x) \<and> buffer_inv (before_lock p x)" by simp
  show ?case
  proof (cases deadline)
    case (Some d)
    with Cons.prems(1,3) b1 b2 show ?thesis
      by (auto simp: Let_def split: if_splits sum.splits dest: Add_locked_inv)
  next
    case None
    show ?thesis
    proof (cases "\<not> IsSet (isAvailable ?b2) \<and> isRunning ?b2")
      case True
      obtain tr r where r: "Add_loop ?b2 e None ps = (tr, r)" by (cases "Add_loop ?b2 e None ps")
      with True None Cons.prems(3) have "snd (Add_loop ?b2 e None ps) = Returned ok b'"
        by (simp add: Let_def)
      with Cons.IH [OF b2 rest] None show ?thesis by simp
    next
      case False
      with None Cons.prems(3) b2 show ?thesis
        by (auto simp: Let_def split: if_splits sum.splits dest: Add_locked_inv)
    qed
  qed
qed

section \<open>Running the buffer of capacity 4\<close>

lemmas demo_defs = demo_opts_def demo_msg_def fill4_def deliver4_def stored_def full4_def sent4_def
lemmas new_defs = NewAckBuffer_def capacity_def defaultCapacity_def ackEvery_of_def float64_of_uint64_def
lemmas call_defs = Add_def Add_locked_def quiet_def len64_def MaxUint64_def Ack_def Ack_locked_def
  GetNextToDeliver_def ResetDelivery_def Close_def GetUnAcked_def Let_def
  word_le_nat_alt word_less_nat_alt

lemma replicate4: "replicate 4 x = [x, x, x, x]"
  by (simp add: numeral_eq_Suc)

lemma run_append:
  "run (cs @ ds) b = (case run cs b of Quiescent b' \<Rightarrow> run ds b' | Crashed f \<Rightarrow> Crashed f | Hung \<Rightarrow> Hung)"
proof (induction cs arbitrary: b)
  case Nil
  then show ?case by simp
next
  case (Cons c cs)
  then show ?case
    by (cases c) (simp_all split: add_outcome.splits sum.splits prod.splits)
qed

lemma run_fill4: "run fill4 (NewAckBuffer demo_opts) = Quiescent full4"
  by (simp add: ev_defs demo_defs new_defs call_defs replicate4 list_update_code)

lemma run_deliver4: "run deliver4 full4 = Quiescent sent4"
  by (simp add: ev_defs demo_defs call_defs)

lemma run_fill4_deliver4: "run (fill4 @ deliver4) (NewAckBuffer demo_opts) = Quiescent sent4"
  by (simp add: run_append run_fill4 run_deliver4)

section \<open>The invariants hold between calls\<close>







section \<open>The hook of Ack\<close>

text \<open>
  C10: \<^verbatim>\<open>Ack\<close> calls the \<^verbatim>\<open>onAck\<close> hook, when one is configured, before it takes the
  lock and whatever the sequence number is: among the events of a call, the hook call is
  the only one before \<^verbatim>\<open>Lock\<close> and it occurs exactly once, also when the call returns
  an error or panics.
\<close>

theorem Ack_calls_hook_once_before_lock:
  "takeWhile (\<lambda>ev. ev \<noteq> Lock) (fst (Ack b seq)) = (if onAck b then [CallOnAck] else []) \<and>
   count_list (fst (Ack b seq)) CallOnAck = (if onAck b then 1 else 0)"
  by (simp add: Ack_def)

theorem Ack_calls_hook_once_before_lock_witness:
  "snd (Ack full4 15) = Inl (NotYetDelivered 15 1) \<and>
   takeWhile (\<lambda>ev. ev \<noteq> Lock) (fst (Ack full4 15)) = [CallOnAck] \<and>
   count_list (fst (Ack full4 15)) CallOnAck = 1"
proof -
  have "snd (Ack full4 15) = Inl (NotYetDelivered 15 1)"
    by (simp add: ev_defs demo_defs call_defs)
  moreover have "onAck full4" by (simp add: full4_def)
  ultimately show ?thesis
    using Ack_calls_hook_once_before_lock [of full4 15] by simp
qed

section \<open>Ack of a sequence number that is not in flight\<close>

text \<open>
  Outside the range \<^verbatim>\<open>[first_seq, first_seq + deliver_cursor)\<close> the call never succeeds:
  it returns one of the two errors or panics, and it panics only when every slot of the
  buffer has been delivered.
\<close>

lemma Ack_locked_outside_range:
  assumes inv: "buffer_inv b"
    and nowrap: "unat (firstSeqNum b) + unat (nextIndexFree b) < 2 ^ 64"
    and out: "\<not> (firstSeqNum b \<le> seq \<and>
                 unat seq < unat (firstSeqNum b) + unat (nextIndexToDeliver b))"
  shows "\<exists>f. Ack_locked b seq = Inl f \<and>
             (is_error f \<longleftrightarrow>
                f \<noteq> IndexOutOfRange) \<and>
             (f = IndexOutOfRange \<longrightarrow> unat (nextIndexToDeliver b) = length (buff b))"
proof -
  from inv have dc: "unat (nextIndexToDeliver b) \<le> unat (nextIndexFree b)"
    and nf: "unat (nextIndexFree b) \<le> length (buff b)"
    by (simp_all add: buffer_inv_def word_le_nat_alt)
  have idx: "nextIndexToDeliver b \<le> seq - firstSeqNum b"
  proof (cases "firstSeqNum b \<le> seq")
    case True
    with out have "unat (firstSeqNum b) + unat (nextIndexToDeliver b) \<le> unat seq" by simp
    then show ?thesis using True by (simp add: word_le_nat_alt unat_sub)
  next
    case False
    then have "unat seq < unat (firstSeqNum b)" by (simp add: word_le_nat_alt)
    then show ?thesis using dc nowrap
      by (simp add: word_le_nat_alt unat_sub_if')
  qed
  then show ?thesis using dc nf
    by (auto simp: Ack_locked_def Let_def)
qed

text \<open>
  C1: \<^verbatim>\<open>Ack(seq)\<close> is to return an error for every \<open>seq\<close> outside
  \<^verbatim>\<open>[first_seq, first_seq + deliver_cursor)\<close>, also when the buffer is full and every
  slot has been delivered. On the buffer of capacity 4 with four messages admitted and
  delivered, \<^verbatim>\<open>Ack(15)\<close> does not return an error: building the error message reads
  \<^verbatim>\<open>b.buff[b.nextIndexToDeliver]\<close> with the index equal to the length, and the call
  panics.
\<close>

theorem Ack_out_of_range_panics_when_all_delivered:
  "run (fill4 @ deliver4 @ [DoAck 15]) (NewAckBuffer demo_opts) = Crashed IndexOutOfRange"
proof -
  have "run [DoAck 15] sent4 = Crashed IndexOutOfRange"
    by (simp add: ev_defs demo_defs call_defs)
  then show ?thesis
    using run_fill4_deliver4 by (simp only: append_assoc [symmetric] run_append [of "fill4 @ deliver4"]) simp
qed

section \<open>Add after Close\<close>

text \<open>
  C2, as stated: every \<^verbatim>\<open>Add\<close> made after \<^verbatim>\<open>Close\<close> returns false and stores nothing,
  whether or not the buffer has free slots. It fails on a new buffer that is closed at
  once: the latch is set, \<^verbatim>\<open>Add\<close> never looks at \<^verbatim>\<open>isRunning\<close>, stores the message in slot
  0 and returns true.
\<close>

theorem Add_after_Close_stores_counterexample:
  "\<not> isRunning (Close (NewAckBuffer demo_opts)) \<and>
   snd (Add (Close (NewAckBuffer demo_opts)) demo_msg 1000000000 0 [quiet 0]) =
     Returned True
       ((Close (NewAckBuffer demo_opts))
          \<lparr>buff := [stored 1 False, None, None, None], nextIndexFree := 1, nextSeqNum := 2,
           isReadyToDeliver := True\<rparr>)"
  by (simp add: ev_defs demo_defs new_defs call_defs replicate4 list_update_code)

text \<open>
  C2, amended: after \<^verbatim>\<open>Close\<close> (\<^verbatim>\<open>isRunning\<close> cleared), an \<^verbatim>\<open>Add\<close> that finds the buffer
  full (\<^verbatim>\<open>isAvailable\<close> unset) returns false and leaves the buffer as it is, for every
  timeout; an \<^verbatim>\<open>Add\<close> that finds a free slot (\<^verbatim>\<open>isAvailable\<close> set) before its deadline
  admits the message exactly as on a running buffer.
\<close>

theorem Add_after_Close:
  assumes "\<not> isRunning b"
  shows "(\<not> IsSet (isAvailable b) \<longrightarrow>
            snd (Add b e timeout start (quiet t # ps)) = Returned False b) \<and>
         (IsSet (isAvailable b) \<and> (timeout = 0 \<or> t \<le> start + timeout) \<longrightarrow>
            snd (Add b e timeout start (quiet t # ps)) =
              (case Add_locked b e of Inl f \<Rightarrow> Panicked f | Inr b' \<Rightarrow> Returned True b'))"
  using assms
  by (auto simp: Add_def quiet_def ev_defs Let_def split: sum.splits)

theorem Add_after_Close_witness:
  "\<not> isRunning (Close full4) \<and> \<not> IsSet (isAvailable (Close full4)) \<and>
   snd (Add (Close full4) demo_msg 0 0 (quiet 0 # [])) = Returned False (Close full4) \<and>
   \<not> isRunning (Close (NewAckBuffer demo_opts)) \<and> IsSet (isAvailable (Close (NewAckBuffer demo_opts))) \<and>
   snd (Add (Close (NewAckBuffer demo_opts)) demo_msg 0 0 (quiet 0 # [])) =
     (case Add_locked (Close (NewAckBuffer demo_opts)) demo_msg of
        Inl f \<Rightarrow> Panicked f | Inr b' \<Rightarrow> Returned True b')"
proof -
  have a: "\<not> isRunning (Close full4)" and b: "\<not> IsSet (isAvailable (Close full4))"
    by (simp_all add: Close_def full4_def ev_defs)
  have c: "\<not> isRunning (Close (NewAckBuffer demo_opts))"
    and d: "IsSet (isAvailable (Close (NewAckBuffer demo_opts)))"
    by (simp_all add: Close_def NewAckBuffer_def ev_defs)
  from Add_after_Close [OF a, of demo_msg 0 0 0 "[]"] Add_after_Close [OF c, of demo_msg 0 0 0 "[]"]
  show ?thesis using a b c d by simp
qed

section \<open>Close and a blocked Add\<close>

text \<open>
  C3, as stated: after \<^verbatim>\<open>Close\<close> the \<^verbatim>\<open>available\<close> latch is set. It fails on the full
  buffer: \<^verbatim>\<open>Close\<close> writes \<^verbatim>\<open>isRunning\<close> only and the latch stays unset.
\<close>

theorem Close_leaves_available_unset_counterexample:
  "run (fill4 @ [DoClose]) (NewAckBuffer demo_opts) = Quiescent (Close full4) \<and>
   IsSet (isAvailable (Close full4)) = False"
  by (simp add: run_append run_fill4) (simp add: Close_def full4_def ev_defs)

text \<open>
  C3, amended: \<^verbatim>\<open>Close\<close> clears \<^verbatim>\<open>isRunning\<close> and leaves the \<^verbatim>\<open>available\<close> latch as it
  was; an \<^verbatim>\<open>Add\<close> that waits on a full buffer while \<^verbatim>\<open>Close\<close> runs returns false without
  storing its message when its wait ends: with timeout 0 at the end of the current wait
  of 500 ms, where it finds the latch unset and \<^verbatim>\<open>isRunning\<close> false, and with a deadline
  when the wait for the latch fails.
\<close>

theorem Close_releases_blocked_Add:
  "isRunning (Close b) = False \<and>
   IsSet (isAvailable (Close b)) = IsSet (isAvailable b) \<and>
   (\<not> IsSet (isAvailable b) \<longrightarrow>
      Add b e 0 start (\<lparr>now = t, while_waiting = Close, before_lock = (\<lambda>x. x)\<rparr> # ps) =
        ([Lock, Unlock], Returned False (Close b))) \<and>
   (\<not> IsSet (isAvailable b) \<and> timeout \<noteq> 0 \<and> t \<le> start + timeout \<longrightarrow>
      snd (Add b e timeout start (\<lparr>now = t, while_waiting = Close, before_lock = (\<lambda>x. x)\<rparr> # ps)) =
        Returned False (Close b))"
  by (simp add: Close_def Add_def ev_defs)

theorem Close_releases_blocked_Add_witness:
  "\<not> IsSet (isAvailable full4) \<and>
   Add full4 demo_msg 0 0 (\<lparr>now = 1, while_waiting = Close, before_lock = (\<lambda>x. x)\<rparr> # []) =
     ([Lock, Unlock], Returned False (Close full4)) \<and>
   snd (Add full4 demo_msg 1000000000 0
          (\<lparr>now = 1, while_waiting = Close, before_lock = (\<lambda>x. x)\<rparr> # [])) =
     Returned False (Close full4)"
proof -
  have "\<not> IsSet (isAvailable full4)" by (simp add: full4_def ev_defs)
  with Close_releases_blocked_Add [of full4 demo_msg 0 1 "[]" 1000000000] show ?thesis by simp
qed

section \<open>The backpressure hook\<close>

lemma Add_untimed_never_calls_hook:
  "CallOnBackPressure \<notin> set (fst (Add_loop b e None passes))"
proof (induction passes arbitrary: b)
  case Nil
  then show ?case by simp
next
  case (Cons p ps)
  let ?b2 = "before_lock p (while_waiting p b)"
  obtain tr r where rest: "Add_loop ?b2 e None ps = (tr, r)" by (cases "Add_loop ?b2 e None ps")
  with Cons [of ?b2] have "CallOnBackPressure \<notin> set tr" by simp
  with rest show ?case by (simp add: Let_def split: sum.splits)
qed

lemma Add_calls_hook_at_most_once:
  "count_list (fst (Add b e timeout start passes)) CallOnBackPressure \<le> 1"
proof (cases "timeout = 0")
  case True
  then show ?thesis
    using Add_untimed_never_calls_hook [of b e passes]
    by (simp add: Add_def count_list_0_iff)
next
  case False
  then show ?thesis
    by (cases passes) (auto simp: Add_def Let_def split: sum.splits)
qed

text \<open>
  C8: an \<^verbatim>\<open>Add\<close> that blocks on a full buffer is to call the \<^verbatim>\<open>onBackPressure\<close> hook,
  at most once, for every timeout, 0 included. On the full buffer of capacity 4, with the
  hook configured, \<^verbatim>\<open>Add\<close> with timeout 0 goes through its passes (here three) without
  calling the hook: the call stands in the branch of the loop taken when there is a
  deadline only.
\<close>

theorem Add_untimed_blocked_without_hook:
  "run fill4 (NewAckBuffer demo_opts) = Quiescent full4 \<and>
   onBackPressure full4 \<and> IsSet (isAvailable full4) = False \<and>
   Add full4 demo_msg 0 0 [quiet 1, quiet 2, quiet 3] =
     ([Lock, Unlock, Lock, Unlock, Lock, Unlock], Blocked full4)"
  by (simp add: run_fill4) (simp add: Add_def quiet_def full4_def ev_defs)

section \<open>What a valid Ack does\<close>

lemma buffer_inv_sent4: "buffer_inv sent4"
  using buffer_inv_NewAckBuffer run_fill4_deliver4 by (rule run_inv)

text \<open>
  C5: for a valid \<^verbatim>\<open>Ack(seq)\<close>, that is \<^verbatim>\<open>first_seq \<le> seq < first_seq + deliver_cursor\<close>
  with sequence numbers that have not wrapped around, and \<open>idx = seq - first_seq\<close>: the
  call succeeds, the slots \<open>[idx + 1, next_free)\<close> move left by \<open>idx + 1\<close> and the slots
  behind them are cleared, \<^verbatim>\<open>first_seq\<close> becomes \<open>seq + 1\<close>, \<^verbatim>\<open>next_free\<close> and
  \<^verbatim>\<open>deliver_cursor\<close> both go down by \<open>idx + 1\<close> (neither below 0), \<^verbatim>\<open>available\<close> is
  raised, and \<^verbatim>\<open>ready\<close> is lowered iff \<^verbatim>\<open>deliver_cursor = next_free\<close> afterwards. With
  capacity 4, four messages admitted and delivered, \<^verbatim>\<open>Ack(2)\<close> leaves the messages
  numbered 3 and 4 and \<^verbatim>\<open>available\<close> set.
\<close>

theorem Ack_valid_compacts:
  assumes inv: "buffer_inv b"
    and lo: "firstSeqNum b \<le> seq"
    and hi: "unat seq < unat (firstSeqNum b) + unat (nextIndexToDeliver b)"
    and nowrap: "unat (firstSeqNum b) + unat (nextIndexFree b) < 2 ^ 64"
  shows "seq - firstSeqNum b + 1 \<le> nextIndexToDeliver b \<and>
         nextIndexToDeliver b \<le> nextIndexFree b \<and>
         snd (Ack b seq) =
           Inr (b\<lparr>firstSeqNum := seq + 1,
                  buff := drop (unat (seq - firstSeqNum b) + 1) (take (unat (nextIndexFree b)) (buff b)) @
                          replicate (length (buff b) - (unat (nextIndexFree b) - (unat (seq - firstSeqNum b) + 1))) None,
                  nextIndexFree := nextIndexFree b - (seq - firstSeqNum b + 1),
                  nextIndexToDeliver := nextIndexToDeliver b - (seq - firstSeqNum b + 1),
                  isAvailable := True,
                  isReadyToDeliver :=
                    (isReadyToDeliver b \<and>
                     nextIndexToDeliver b - (seq - firstSeqNum b + 1) \<noteq>
                       nextIndexFree b - (seq - firstSeqNum b + 1))\<rparr>)"
proof -
  let ?idx = "seq - firstSeqNum b"
  from inv have ns: "nextSeqNum b = firstSeqNum b + nextIndexFree b"
    and dc: "unat (nextIndexToDeliver b) \<le> unat (nextIndexFree b)"
    by (simp_all add: buffer_inv_def word_le_nat_alt)
  have g1: "\<not> seq < firstSeqNum b" using lo by simp
  have "unat (nextSeqNum b) = unat (firstSeqNum b) + unat (nextIndexFree b)"
    unfolding ns using nowrap by (simp add: unat_add_lem [THEN iffD1])
  with hi dc have g2: "\<not> nextSeqNum b \<le> seq" by (simp add: word_le_nat_alt)
  have k: "unat ?idx = unat seq - unat (firstSeqNum b)" using lo by (rule unat_sub)
  with hi lo have klt: "unat ?idx < unat (nextIndexToDeliver b)"
    by (simp add: word_le_nat_alt)
  then have g3: "\<not> nextIndexToDeliver b \<le> ?idx" by (simp add: word_le_nat_alt)
  from g1 g2 g3 obtain b' where ok: "Ack_locked b seq = Inr b'"
    by (simp add: Ack_locked_def Let_def)
  note eff = Ack_locked_effect [OF inv ok]
  have suc: "unat (?idx + 1) = unat ?idx + 1"
    using klt unat_lt_64 [of "nextIndexToDeliver b"] by (rule unat_plus_one)
  then have le: "?idx + 1 \<le> nextIndexToDeliver b" using klt by (simp add: word_le_nat_alt)
  have dcw: "nextIndexToDeliver b \<le> nextIndexFree b" using dc by (simp add: word_le_nat_alt)
  have sub: "nextIndexFree b - ?idx - 1 = nextIndexFree b - (?idx + 1)" by simp
  have "unat (nextIndexToDeliver b - (?idx + 1)) \<le> unat (nextIndexFree b - (?idx + 1))"
    using le dcw dc by (simp add: unat_sub order_trans [OF le dcw])
  then have rd: "(nextIndexFree b - (?idx + 1) \<le> nextIndexToDeliver b - (?idx + 1)) =
      (nextIndexToDeliver b - (?idx + 1) = nextIndexFree b - (?idx + 1))"
    by (auto simp: word_le_nat_alt word_unat_eq_iff)
  show ?thesis
    using le dcw by (simp add: Ack_def ok) (auto simp: eff(2) sub rd)
qed

theorem Ack_valid_compacts_witness:
  "snd (Ack sent4 2) = Inr acked2 \<and>
   GetUnAcked acked2 = Inr [stored 3 False, stored 4 True] \<and>
   IsSet (isAvailable acked2)"
proof -
  have lo: "firstSeqNum sent4 \<le> 2"
    and hi: "unat (2 :: uint64) < unat (firstSeqNum sent4) + unat (nextIndexToDeliver sent4)"
    and nowrap: "unat (firstSeqNum sent4) + unat (nextIndexFree sent4) < 2 ^ 64"
    by (simp_all add: sent4_def full4_def word_le_nat_alt)
  from Ack_valid_compacts [OF buffer_inv_sent4 lo hi nowrap]
  have "snd (Ack sent4 2) = Inr acked2"
    by (simp add: sent4_def full4_def acked2_def stored_def)
  then show ?thesis
    by (simp add: GetUnAcked_def acked2_def ev_defs)
qed

section \<open>ResetDelivery\<close>

text \<open>
  C7: \<^verbatim>\<open>ResetDelivery\<close> sets \<^verbatim>\<open>deliver_cursor\<close> to 0 and sets the \<^verbatim>\<open>ready\<close> latch iff
  \<^verbatim>\<open>next_free > 0\<close>, clearing it otherwise, and changes nothing else; on a buffer that
  is not empty the next \<^verbatim>\<open>GetNextToDeliver\<close> returns the message of slot 0, whose sequence
  number is \<^verbatim>\<open>first_seq\<close> and, as long as sequence numbers have not wrapped around, the
  smallest in the buffer; the slots, \<^verbatim>\<open>next_free\<close> and \<^verbatim>\<open>first_seq\<close> stay as they are.
\<close>

theorem ResetDelivery_replays_from_first:
  "ResetDelivery b = b\<lparr>nextIndexToDeliver := 0, isReadyToDeliver := (0 < nextIndexFree b)\<rparr> \<and>
   (buffer_inv b \<and> 0 < nextIndexFree b \<longrightarrow>
      (\<exists>m. buff b ! 0 = Some m \<and> SeqNum m = firstSeqNum b \<and>
           GetNextToDeliver (ResetDelivery b) =
             Inr (Some m, b\<lparr>nextIndexToDeliver := 1, isReadyToDeliver := (1 < nextIndexFree b)\<rparr>) \<and>
           (unat (firstSeqNum b) + unat (nextIndexFree b) \<le> 2 ^ 64 \<longrightarrow>
              (\<forall>i < unat (nextIndexFree b). \<forall>m'. buff b ! i = Some m' \<longrightarrow> SeqNum m \<le> SeqNum m'))))"
proof (intro conjI impI)
  show "ResetDelivery b = b\<lparr>nextIndexToDeliver := 0, isReadyToDeliver := (0 < nextIndexFree b)\<rparr>"
    by (auto simp: ResetDelivery_def Let_def ev_defs word_le_nat_alt word_less_nat_alt)
next
  assume a: "buffer_inv b \<and> 0 < nextIndexFree b"
  then have inv: "buffer_inv b" and pos: "0 < unat (nextIndexFree b)"
    by (simp_all add: word_less_nat_alt)
  from inv have nf: "unat (nextIndexFree b) \<le> length (buff b)"
    and slots: "\<And>i. i < unat (nextIndexFree b) \<Longrightarrow>
        \<exists>m. buff b ! i = Some m \<and> SeqNum m = firstSeqNum b + of_nat i"
    by (simp_all add: buffer_inv_def)
  from slots [OF pos] obtain m where m: "buff b ! 0 = Some m" and sm: "SeqNum m = firstSeqNum b"
    by auto
  have get: "GetNextToDeliver (ResetDelivery b) =
      Inr (Some m, b\<lparr>nextIndexToDeliver := 1, isReadyToDeliver := (1 < nextIndexFree b)\<rparr>)"
    using pos nf m
    by (auto simp: ResetDelivery_def GetNextToDeliver_def Let_def ev_defs
          word_le_nat_alt word_less_nat_alt)
  have least: "SeqNum m \<le> SeqNum m'"
    if nowrap: "unat (firstSeqNum b) + unat (nextIndexFree b) \<le> 2 ^ 64"
      and i: "i < unat (nextIndexFree b)" and m': "buff b ! i = Some m'" for i m'
  proof -
    from slots [OF i] m' have "SeqNum m' = firstSeqNum b + of_nat i" by simp
    moreover have "unat (of_nat i :: uint64) = i"
      using i unat_lt_64 [of "nextIndexFree b"] by (simp add: unat_of_nat)
    moreover from this i nowrap
    have "unat (firstSeqNum b + of_nat i) = unat (firstSeqNum b) + i"
      by (simp add: unat_add_lem [THEN iffD1])
    ultimately show ?thesis by (simp add: sm word_le_nat_alt)
  qed
  from m sm get least
  show "\<exists>m. buff b ! 0 = Some m \<and> SeqNum m = firstSeqNum b \<and>
           GetNextToDeliver (ResetDelivery b) =
             Inr (Some m, b\<lparr>nextIndexToDeliver := 1, isReadyToDeliver := (1 < nextIndexFree b)\<rparr>) \<and>
           (unat (firstSeqNum b) + unat (nextIndexFree b) \<le> 2 ^ 64 \<longrightarrow>
              (\<forall>i < unat (nextIndexFree b). \<forall>m'. buff b ! i = Some m' \<longrightarrow> SeqNum m \<le> SeqNum m'))"
    by blast
qed

theorem ResetDelivery_replays_from_first_witness:
  "ResetDelivery acked2 = acked2\<lparr>nextIndexToDeliver := 0, isReadyToDeliver := True\<rparr> \<and>
   GetNextToDeliver (ResetDelivery acked2) =
     Inr (stored 3 False, acked2\<lparr>nextIndexToDeliver := 1, isReadyToDeliver := True\<rparr>)"
proof -
  have inv: "buffer_inv acked2 \<and> 0 < nextIndexFree acked2"
    using Ack_locked_inv [OF buffer_inv_sent4, of 2 acked2]
    by (simp add: Ack_locked_def sent4_def full4_def acked2_def stored_def Let_def ev_defs
          MaxUint64_def len64_def word_le_nat_alt word_less_nat_alt shift_slots_def clear_slots_def upt_rec)
  from ResetDelivery_replays_from_first [of acked2] inv
  show ?thesis
    by (auto simp: acked2_def stored_def word_less_nat_alt)
qed

section \<open>The stride of acknowledgement requests\<close>

lemma Add_loop_quiet:
  "snd (Add_loop b e deadline (map quiet clock)) = Blocked b \<or>
   snd (Add_loop b e deadline (map quiet clock)) = Returned False b \<or>
   snd (Add_loop b e deadline (map quiet clock)) =
     (case Add_locked b e of Inl f \<Rightarrow> Panicked f | Inr b' \<Rightarrow> Returned True b')"
proof (induction clock)
  case Nil
  then show ?case by simp
next
  case (Cons t ts)
  show ?case
  proof (cases deadline)
    case None
    with Cons show ?thesis
      by (auto simp: quiet_def Let_def split: if_splits sum.splits prod.splits)
  next
    case (Some d)
    then show ?thesis
      by (auto simp: quiet_def Let_def split: if_splits sum.splits)
  qed
qed

lemma Add_quiet_True:
  assumes "snd (Add b e timeout start (map quiet clock)) = Returned True b'"
  shows "Add_locked b e = Inr b'"
  using assms Add_loop_quiet [of b e "if timeout \<noteq> 0 then Some (start + timeout) else None" clock]
  unfolding Add_def by (auto split: sum.splits)

lemma Add_quiet_Panicked:
  assumes "snd (Add b e timeout start (map quiet clock)) = Panicked f"
  shows "Add_locked b e = Inl f"
  using assms Add_loop_quiet [of b e "if timeout \<noteq> 0 then Some (start + timeout) else None" clock]
  unfolding Add_def by (auto split: sum.splits)

lemma Add_locked_ackEvery: "Add_locked b e = Inr b' \<Longrightarrow> ackEvery b' = ackEvery b"
  by (auto simp: Add_locked_def Let_def split: if_splits)

lemma Ack_locked_ackEvery: "Ack_locked b seq = Inr b' \<Longrightarrow> ackEvery b' = ackEvery b"
  by (auto simp: Ack_locked_def Let_def split: if_splits)

lemma GetNextToDeliver_ackEvery:
  "GetNextToDeliver b = Inr (m, b') \<Longrightarrow> ackEvery b' = ackEvery b"
  by (auto simp: GetNextToDeliver_def Let_def split: if_splits)

lemma run_ackEvery: "run calls b = Quiescent b' \<Longrightarrow> ackEvery b' = ackEvery b"
proof (induction calls arbitrary: b)
  case Nil
  then show ?case by simp
next
  case (Cons c cs)
  show ?case
  proof (cases c)
    case (DoAdd e timeout start clock)
    with Cons.prems obtain ok b1 where
      add: "snd (Add b e timeout start (map quiet clock)) = Returned ok b1"
      and rest: "run cs b1 = Quiescent b'"
      by (auto split: add_outcome.splits)
    from add have "b1 = b \<or> Add_locked b e = Inr b1"
      unfolding Add_def by (rule Add_loop_quiet_cases)
    then have "ackEvery b1 = ackEvery b" by (auto dest: Add_locked_ackEvery)
    with Cons.IH [OF rest] show ?thesis by simp
  next
    case (DoAck seq)
    with Cons.prems Cons.IH show ?thesis
      by (auto simp: Ack_def split: sum.splits if_splits dest!: Ack_locked_ackEvery)
  next
    case DoGetNextToDeliver
    with Cons.prems Cons.IH show ?thesis
      by (auto split: sum.splits dest!: GetNextToDeliver_ackEvery)
  next
    case DoResetDelivery
    with Cons.prems Cons.IH [of "ResetDelivery b"] show ?thesis
      by (simp add: ResetDelivery_def Let_def split: if_splits)
  next
    case DoClose
    with Cons.prems Cons.IH [of "Close b"] show ?thesis by (simp add: Close_def)
  qed
qed

lemma ackEvery_of_small:
  assumes "unat c < 2 ^ 53"
  shows "unat (ackEvery_of c) = unat c div 2"
proof -
  have "unat c div 2 < 2 ^ 64" using unat_lt_64 [of c] by simp
  then show ?thesis using assms
    by (simp add: ackEvery_of_def float64_of_uint64_def unat_of_nat)
qed

text \<open>
  C6: a message that comes without the flag and is admitted into a buffer built with
  capacity \<open>C\<close> is stored with the next sequence number, and its \<^verbatim>\<open>AckRequested\<close> flag
  is true iff that sequence number is a nonzero multiple of \<open>C div 2\<close>. Here \<open>C\<close> is below
  \<open>2 ^ 53\<close>, where the conversion to \<^verbatim>\<open>float64\<close> is exact, and the sequence counter has
  not wrapped around to 0.
\<close>

theorem ack_requested_at_stride:
  assumes run: "run calls (NewAckBuffer opts) = Quiescent b"
    and small: "unat (capacity opts) < 2 ^ 53"
    and nonzero: "nextSeqNum b \<noteq> 0"
    and fresh: "\<not> AckRequested e"
    and add: "snd (Add b e timeout start (map quiet clock)) = Returned True b'"
  shows "\<exists>m. buff b' ! unat (nextIndexFree b) = Some m \<and>
             SeqNum m = nextSeqNum b \<and> JsonPayload m = JsonPayload e \<and>
             (AckRequested m \<longleftrightarrow>
                SeqNum m \<noteq> 0 \<and> (unat (capacity opts) div 2) dvd unat (SeqNum m))"
proof -
  from add have locked: "Add_locked b e = Inr b'" by (rule Add_quiet_True)
  from run_ackEvery [OF run] have "ackEvery b = ackEvery_of (capacity opts)"
    by (simp add: NewAckBuffer_def)
  with small have stride: "unat (ackEvery b) = unat (capacity opts) div 2"
    by (simp add: ackEvery_of_small)
  from locked have k: "ackEvery b \<noteq> 0" and room: "unat (nextIndexFree b) < length (buff b)"
    by (simp_all add: Add_locked_def Let_def split: if_splits)
  let ?m = "if nextSeqNum b mod ackEvery b = 0
            then e\<lparr>SeqNum := nextSeqNum b, AckRequested := True\<rparr> else e\<lparr>SeqNum := nextSeqNum b\<rparr>"
  from locked k room have slot: "buff b' ! unat (nextIndexFree b) = Some ?m"
    by (auto simp: Add_locked_def Let_def split: if_splits)
  have "(nextSeqNum b mod ackEvery b = 0) = (unat (ackEvery b) dvd unat (nextSeqNum b))"
    by (simp add: word_unat_eq_iff unat_mod dvd_eq_mod_eq_0)
  with fresh nonzero stride have "AckRequested ?m \<longleftrightarrow>
      SeqNum ?m \<noteq> 0 \<and> (unat (capacity opts) div 2) dvd unat (SeqNum ?m)"
    by simp
  moreover have "SeqNum ?m = nextSeqNum b" "JsonPayload ?m = JsonPayload e" by simp_all
  ultimately show ?thesis using slot by blast
qed

theorem ack_requested_at_stride_witness:
  "run (take 3 fill4) (NewAckBuffer demo_opts) = Quiescent admitted3 \<and>
   snd (Add admitted3 demo_msg 1000000000 0 (map quiet [0])) = Returned True full4 \<and>
   (\<exists>m. buff full4 ! unat (nextIndexFree admitted3) = Some m \<and>
        SeqNum m = nextSeqNum admitted3 \<and> JsonPayload m = JsonPayload demo_msg \<and>
        (AckRequested m \<longleftrightarrow>
           SeqNum m \<noteq> 0 \<and> (unat (capacity demo_opts) div 2) dvd unat (SeqNum m)))"
proof -
  have r: "run (take 3 fill4) (NewAckBuffer demo_opts) = Quiescent admitted3"
    by (simp add: ev_defs demo_defs admitted3_def new_defs call_defs replicate4 list_update_code)
  have small: "unat (capacity demo_opts) < 2 ^ 53" by (simp add: demo_opts_def capacity_def)
  have nz: "nextSeqNum admitted3 \<noteq> 0" by (simp add: admitted3_def)
  have fresh: "\<not> AckRequested demo_msg" by (simp add: demo_msg_def)
  have add: "snd (Add admitted3 demo_msg 1000000000 0 (map quiet [0])) = Returned True full4"
    by (simp add: ev_defs demo_defs admitted3_def call_defs list_update_code)
  from r add ack_requested_at_stride [OF r small nz fresh add]
  show ?thesis by blast
qed

section \<open>Division by zero in Add\<close>

lemma bit_length_bounds:
  "n \<noteq> 0 \<Longrightarrow> 2 ^ (bit_length n - 1) \<le> n \<and> n < 2 ^ bit_length n"
proof (induction n rule: bit_length.induct)
  case (1 n)
  show ?case
  proof (cases "n div 2 = 0")
    case True
    with "1.prems" have "n = Suc 0" by (cases n) auto
    moreover have "bit_length (Suc 0) = Suc 0"
      by (simp add: bit_length.simps [of "Suc 0"] bit_length.simps [of 0])
    ultimately show ?thesis by simp
  next
    case False
    with "1.IH" "1.prems" have lo: "2 ^ (bit_length (n div 2) - 1) \<le> n div 2"
      and hi: "n div 2 < 2 ^ bit_length (n div 2)" by simp_all
    have pos: "bit_length (n div 2) \<noteq> 0"
      using False by (simp add: bit_length.simps [of "n div 2"])
    have bl: "bit_length n = Suc (bit_length (n div 2))"
      using "1.prems" by (simp add: bit_length.simps [of n])
    from pos have "(2::nat) ^ bit_length (n div 2) = 2 * 2 ^ (bit_length (n div 2) - 1)"
      by (cases "bit_length (n div 2)") simp_all
    with lo have "2 ^ bit_length (n div 2) \<le> n" by simp
    moreover from hi have "n < 2 * 2 ^ bit_length (n div 2)" by simp
    ultimately show ?thesis by (simp add: bl)
  qed
qed

lemma float64_of_uint64_bounds:
  assumes "2 \<le> unat c"
  shows "2 \<le> float64_of_uint64 c \<and> float64_of_uint64 c \<le> 2 ^ 64"
proof (cases "unat c < 2 ^ 53")
  case True
  with assms show ?thesis by (simp add: float64_of_uint64_def)
next
  case False
  let ?n = "unat c"
  let ?L = "bit_length ?n"
  let ?e = "?L - 53"
  let ?q = "?n div 2 ^ ?e"
  from False have big: "2 ^ 53 \<le> ?n" by simp
  then have nz: "?n \<noteq> 0" by simp
  from bit_length_bounds [OF nz] have lo: "2 ^ (?L - 1) \<le> ?n" and hi: "?n < 2 ^ ?L" by simp_all
  from big hi have "(2::nat) ^ 53 < 2 ^ ?L" by simp
  then have L53: "53 < ?L" by (rule power_less_imp_less_exp [rotated]) simp
  from lo unat_lt_64 [of c] have "(2::nat) ^ (?L - 1) < 2 ^ 64" by simp
  then have "?L - 1 < 64" by (rule power_less_imp_less_exp [rotated]) simp
  with L53 have e: "1 \<le> ?e" "?e \<le> 11" by simp_all
  have L: "?L = ?e + 53" using L53 by simp
  have "?n < 2 ^ ?e * 2 ^ 53" using hi by (subst (asm) L) (simp add: power_add)
  then have q_hi: "?q < 2 ^ 53" by (simp add: less_mult_imp_div_less mult.commute)
  have "?L - 1 = 52 + ?e" using L53 by simp
  then have "(2::nat) ^ (?L - 1) = 2 ^ 52 * 2 ^ ?e" by (simp only: power_add)
  with lo have "2 ^ 52 * 2 ^ ?e \<le> ?n" by (simp only:)
  then have q_lo: "2 ^ 52 \<le> ?q" by (simp only: less_eq_div_iff_mult_less_eq [of "2 ^ ?e", simplified])
  have "(2::nat) ^ 1 \<le> 2 ^ ?e" using e(1) by (intro power_increasing) simp_all
  then have two_e: "(2::nat) \<le> 2 ^ ?e" by simp
  have e_le: "(2::nat) ^ ?e \<le> 2 ^ 11" using e(2) by (intro power_increasing) simp_all
  have rounded: "float64_of_uint64 c = ?q * 2 ^ ?e \<or> float64_of_uint64 c = (?q + 1) * 2 ^ ?e"
    using False by (simp add: float64_of_uint64_def Let_def)
  have "2 \<le> ?q * 2 ^ ?e"
  proof -
    have "1 * 2 \<le> ?q * 2 ^ ?e" using q_lo two_e by (intro mult_le_mono) simp_all
    then show ?thesis by simp
  qed
  moreover have "(?q + 1) * 2 ^ ?e \<le> 2 ^ 64"
  proof -
    have "(?q + 1) * 2 ^ ?e \<le> 2 ^ 53 * 2 ^ 11" using q_hi e_le by (intro mult_le_mono) simp_all
    then show ?thesis by simp
  qed
  moreover have "?q * 2 ^ ?e \<le> (?q + 1) * 2 ^ ?e" by simp
  ultimately show ?thesis using rounded by auto
qed

lemma ackEvery_of_nonzero:
  assumes "2 \<le> c"
  shows "1 \<le> ackEvery_of c"
proof -
  from assms have "2 \<le> unat c" by (simp add: word_le_nat_alt)
  from float64_of_uint64_bounds [OF this]
  have "1 \<le> float64_of_uint64 c div 2" and "float64_of_uint64 c div 2 < 2 ^ 64" by arith+
  then show ?thesis
    by (simp add: ackEvery_of_def word_le_nat_alt unat_of_nat)
qed

lemma Add_locked_no_div: "ackEvery b \<noteq> 0 \<Longrightarrow> Add_locked b e \<noteq> Inl DivideByZero"
  by (simp add: Add_locked_def Let_def)

lemma Ack_locked_no_div: "Ack_locked b seq \<noteq> Inl DivideByZero"
  by (simp add: Ack_locked_def Let_def)

lemma GetNextToDeliver_no_div: "GetNextToDeliver b \<noteq> Inl DivideByZero"
  by (simp add: GetNextToDeliver_def Let_def)

lemma run_no_div: "ackEvery b \<noteq> 0 \<Longrightarrow> run calls b \<noteq> Crashed DivideByZero"
proof (induction calls arbitrary: b)
  case Nil
  then show ?case by simp
next
  case (Cons c cs)
  show ?case
  proof (cases c)
    case (DoAdd e timeout start clock)
    let ?r = "snd (Add b e timeout start (map quiet clock))"
    from Add_loop_quiet [of b e "if timeout \<noteq> 0 then Some (start + timeout) else None" clock]
    consider "?r = Blocked b" | "?r = Returned False b"
      | f where "?r = Panicked f" "Add_locked b e = Inl f"
      | b1 where "?r = Returned True b1" "Add_locked b e = Inr b1"
      unfolding Add_def by (cases "Add_locked b e") auto
    then show ?thesis
    proof cases
      case 1
      with DoAdd show ?thesis by simp
    next
      case 2
      with DoAdd Cons.IH [OF Cons.prems] show ?thesis by simp
    next
      case 3
      with Add_locked_no_div [OF Cons.prems, of e] have "f \<noteq> DivideByZero" by auto
      with 3 DoAdd show ?thesis by simp
    next
      case 4
      with Cons.prems have "ackEvery b1 \<noteq> 0" by (simp add: Add_locked_ackEvery)
      from Cons.IH [OF this] 4 DoAdd show ?thesis by simp
    qed
  next
    case (DoAck seq)
    show ?thesis
    proof (cases "Ack_locked b seq")
      case (Inl f)
      with Ack_locked_no_div [of b seq] have "f \<noteq> DivideByZero" by auto
      with Inl DoAck Cons.IH [OF Cons.prems] show ?thesis by (simp add: Ack_def)
    next
      case (Inr b1)
      with Cons.prems have "ackEvery b1 \<noteq> 0" by (simp add: Ack_locked_ackEvery)
      from Cons.IH [OF this] Inr DoAck show ?thesis by (simp add: Ack_def)
    qed
  next
    case DoGetNextToDeliver
    show ?thesis
    proof (cases "GetNextToDeliver b")
      case (Inl f)
      with GetNextToDeliver_no_div [of b] have "f \<noteq> DivideByZero" by auto
      with Inl DoGetNextToDeliver show ?thesis by simp
    next
      case (Inr r)
      obtain m b1 where r: "r = (m, b1)" by (cases r)
      with Inr Cons.prems have "ackEvery b1 \<noteq> 0" by (simp add: GetNextToDeliver_ackEvery)
      from Cons.IH [OF this] Inr r DoGetNextToDeliver show ?thesis by simp
    qed
  next
    case DoResetDelivery
    from Cons.prems have "ackEvery (ResetDelivery b) \<noteq> 0"
      by (simp add: ResetDelivery_def Let_def)
    from Cons.IH [OF this] DoResetDelivery show ?thesis by simp
  next
    case DoClose
    from Cons.prems have "ackEvery (Close b) \<noteq> 0" by (simp add: Close_def)
    from Cons.IH [OF this] DoClose show ?thesis by simp
  qed
qed

text \<open>
  C9: a buffer of capacity 1 is built with \<^verbatim>\<open>ackEvery = 0\<close>, and its first \<^verbatim>\<open>Add\<close> that
  gets to store a message (no deadline, or the deadline not passed) panics on the
  remainder by zero; a buffer of capacity 2 or more is built with \<^verbatim>\<open>ackEvery \<ge> 1\<close>, and
  no sequence of calls on it ever ends in that panic. The capacity is never 0: an option
  of 0 stands for 5000.
\<close>

theorem division_by_zero_only_at_capacity_one:
  "(capacity opts = 1 \<longrightarrow>
      ackEvery (NewAckBuffer opts) = 0 \<and>
      (timeout = 0 \<or> t \<le> start + timeout \<longrightarrow>
         run [DoAdd e timeout start (t # ts)] (NewAckBuffer opts) = Crashed DivideByZero)) \<and>
   (2 \<le> capacity opts \<longrightarrow>
      1 \<le> ackEvery (NewAckBuffer opts) \<and>
      run calls (NewAckBuffer opts) \<noteq> Crashed DivideByZero)"
proof (intro conjI impI)
  assume one: "capacity opts = 1"
  then show zero: "ackEvery (NewAckBuffer opts) = 0"
    by (simp add: NewAckBuffer_def ackEvery_of_def float64_of_uint64_def)
  assume "timeout = 0 \<or> t \<le> start + timeout"
  with zero show "run [DoAdd e timeout start (t # ts)] (NewAckBuffer opts) = Crashed DivideByZero"
    by (auto simp: Add_def quiet_def Let_def Add_locked_def)
       (simp_all add: NewAckBuffer_def ev_defs)
next
  assume two: "2 \<le> capacity opts"
  then show pos: "1 \<le> ackEvery (NewAckBuffer opts)"
    by (simp add: NewAckBuffer_def ackEvery_of_nonzero)
  then have "ackEvery (NewAckBuffer opts) \<noteq> 0" by (auto simp: word_le_nat_alt)
  then show "run calls (NewAckBuffer opts) \<noteq> Crashed DivideByZero" by (rule run_no_div)
qed

theorem division_by_zero_only_at_capacity_one_witness:
  "capacity opts1 = 1 \<and> ackEvery (NewAckBuffer opts1) = 0 \<and>
   run [DoAdd demo_msg 0 0 (0 # [])] (NewAckBuffer opts1) = Crashed DivideByZero \<and>
   2 \<le> capacity demo_opts \<and> 1 \<le> ackEvery (NewAckBuffer demo_opts) \<and>
   run (fill4 @ deliver4) (NewAckBuffer demo_opts) \<noteq> Crashed DivideByZero"
proof -
  have one: "capacity opts1 = 1" by (simp add: capacity_def opts1_def)
  have two: "2 \<le> capacity demo_opts" by (simp add: capacity_def demo_opts_def)
  from division_by_zero_only_at_capacity_one [of opts1 0 0 0 demo_msg "[]"] one
  have a: "ackEvery (NewAckBuffer opts1) = 0 \<and>
     run [DoAdd demo_msg 0 0 (0 # [])] (NewAckBuffer opts1) = Crashed DivideByZero"
    by simp
  from division_by_zero_only_at_capacity_one [of demo_opts _ _ _ _ _ "fill4 @ deliver4"] two
  have b: "1 \<le> ackEvery (NewAckBuffer demo_opts) \<and>
     run (fill4 @ deliver4) (NewAckBuffer demo_opts) \<noteq> Crashed DivideByZero"
    by simp
  from one two a b show ?thesis by blast
qed

end
